theory Spec2Isabelle
  imports Complex_Main "HOL-Library.Char_ord" "HOL-Library.List_Lexorder" "HOL-Library.Log_Nat"
begin

section \<open>Strings\<close>

text \<open>
  A Python \<open>str\<close> is modelled as a \<open>string\<close>: a list of characters whose codes are the
  code points 0..255.  \<open>sorted\<close> on a set of strings is the ascending list of its distinct
  elements in the lexicographic order by code point, which is the order of
  \<open>List_Lexorder\<close> over \<open>Char_ord\<close>.
\<close>

datatype error =
    StopIteration
  | ValueError string
  | ZeroDivisionError
  | OverflowError
  | IndexError

definition comma :: char where
  "comma = CHR 0x2C"

definition dquote :: char where
  "dquote = CHR 0x22"

definition space :: char where
  "space = CHR 0x20"

text \<open>\<open>str.isspace\<close> of one character, for the code points below 256.\<close>

definition isspace :: "char \<Rightarrow> bool" where
  "isspace c = (of_char c \<in> {9, 10, 11, 12, 13, 28, 29, 30, 31, 32, 133, 160 :: nat})"

text \<open>\<open>s.strip()\<close>: leading and trailing whitespace removed.\<close>

definition strip :: "string \<Rightarrow> string" where
  "strip s = rev (dropWhile isspace (rev (dropWhile isspace s)))"

text \<open>
  \<open>s.split(d)\<close> for a separator \<open>d\<close> of one character: every occurrence of \<open>d\<close> ends a
  piece, empty pieces are kept, and the empty string gives one empty piece.
\<close>

fun split_from :: "char \<Rightarrow> string \<Rightarrow> string \<Rightarrow> string list" where
  "split_from d cur [] = [cur]"
| "split_from d cur (c # cs) =
     (if c = d then cur # split_from d [] cs else split_from d (cur @ [c]) cs)"

definition str_split :: "char \<Rightarrow> string \<Rightarrow> string list" where
  "str_split d s = split_from d [] s"



text \<open>\<open>glue.join(names)\<close>.\<close>

fun str_join :: "string \<Rightarrow> string list \<Rightarrow> string" where
  "str_join glue [] = []"
| "str_join glue [x] = x"
| "str_join glue (x # y # ys) = x @ glue @ str_join glue (y # ys)"

text \<open>\<open>sorted(set(ws))\<close>.\<close>

definition sorted_set :: "string list \<Rightarrow> string list" where
  "sorted_set ws = sort (remdups ws)"

section \<open>Tag input parsing\<close>

text \<open>\<open>split_strip(input, delimiter)\<close>.\<close>

definition split_strip :: "string \<Rightarrow> char \<Rightarrow> string list" where
  "split_strip input delimiter =
     (let words = map strip (str_split delimiter input) in filter (\<lambda>w. w \<noteq> []) words)"

text \<open>The local variables of \<open>parse_tag_input\<close>.\<close>

record pstate =
  words :: "string list"
  buffer :: string
  to_be_split :: "string list"
  saw_loose_comma :: bool
  open_quote :: bool

text \<open>
  The body of the \<open>try\<close> block.  The loop \<open>while 1\<close> has no exit of its own: it ends when
  \<open>next(i)\<close> raises \<open>StopIteration\<close>, so the block returns the exception raised together
  with the variables at that moment.  \<open>scan\<close> is the outer loop reading its next
  character, \<open>scan_quoted\<close> the search for the matching quote; the list is what the
  iterator has left.
\<close>

fun scan :: "pstate \<Rightarrow> string \<Rightarrow> error \<times> pstate"
  and scan_quoted :: "pstate \<Rightarrow> string \<Rightarrow> error \<times> pstate" where
  "scan st [] = (StopIteration, st)"
| "scan st (c # cs) =
     (if c = dquote then
        (let st1 = (if buffer st \<noteq> []
                    then st\<lparr>to_be_split := to_be_split st @ [buffer st], buffer := []\<rparr>
                    else st)
         in scan_quoted (st1\<lparr>open_quote := True\<rparr>) cs)
      else
        (let st1 = (if \<not> saw_loose_comma st \<and> c = comma
                    then st\<lparr>saw_loose_comma := True\<rparr> else st)
         in scan (st1\<lparr>buffer := buffer st1 @ [c]\<rparr>) cs))"
| "scan_quoted st [] = (StopIteration, st)"
| "scan_quoted st (c # cs) =
     (if c \<noteq> dquote then scan_quoted (st\<lparr>buffer := buffer st @ [c]\<rparr>) cs
      else
        (let st1 = (if buffer st \<noteq> []
                    then (let word = strip (buffer st);
                              st' = (if word \<noteq> [] then st\<lparr>words := words st @ [word]\<rparr> else st)
                          in st'\<lparr>buffer := []\<rparr>)
                    else st)
         in scan (st1\<lparr>open_quote := False\<rparr>) cs))"

text \<open>The handler of \<open>StopIteration\<close>.\<close>

definition on_stop :: "pstate \<Rightarrow> pstate" where
  "on_stop st =
     (if buffer st \<noteq> [] then
        (let st1 = (if open_quote st \<and> comma \<in> set (buffer st)
                    then st\<lparr>saw_loose_comma := True\<rparr> else st)
         in st1\<lparr>to_be_split := to_be_split st1 @ [buffer st1]\<rparr>)
      else st)"

text \<open>The statements after the \<open>try\<close>.\<close>

definition split_chunks :: "pstate \<Rightarrow> string list" where
  "split_chunks st =
     (if to_be_split st \<noteq> [] then
        (let delimiter = (if saw_loose_comma st then comma else space)
         in words st @ concat (map (\<lambda>chunk. split_strip chunk delimiter) (to_be_split st)))
      else words st)"

definition init_state :: pstate where
  "init_state = \<lparr>words = [], buffer = [], to_be_split = [], saw_loose_comma = False,
     open_quote = False\<rparr>"

text \<open>
  \<open>parse_tag_input(input)\<close>.  The argument is \<open>None\<close> or a string (\<open>force_str\<close> is the
  identity on a string).  Only \<open>StopIteration\<close> is caught; any other exception of the
  block would leave the function.
\<close>

fun parse_tag_input :: "string option \<Rightarrow> error + string list" where
  "parse_tag_input None = Inr []"
| "parse_tag_input (Some input) =
     (if input = [] then Inr []
      else if comma \<notin> set input \<and> dquote \<notin> set input
        then Inr (sorted_set (split_strip input space))
      else
        (case scan init_state input of
           (StopIteration, st) \<Rightarrow> Inr (sorted_set (split_chunks (on_stop st)))
         | (e, st) \<Rightarrow> Inl e))"

section \<open>Serialization\<close>

record tag =
  name :: string
  count :: int
  font_size :: "int option"

definition quoted :: "string \<Rightarrow> string" where
  "quoted s = [dquote] @ s @ [dquote]"

text \<open>The loop of \<open>edit_string_for_tags\<close> over \<open>names\<close> and \<open>use_commas\<close>.\<close>

fun collect_names :: "string list \<times> bool \<Rightarrow> tag list \<Rightarrow> string list \<times> bool" where
  "collect_names (names, use_commas) [] = (names, use_commas)"
| "collect_names (names, use_commas) (t # ts) =
     (if comma \<in> set (name t) then collect_names (names @ [quoted (name t)], use_commas) ts
      else if space \<in> set (name t) then collect_names (names @ [name t], True) ts
      else collect_names (names @ [name t], use_commas) ts)"

definition edit_string_for_tags :: "tag list \<Rightarrow> string" where
  "edit_string_for_tags tags =
     (case collect_names ([], False) tags of
        (names, use_commas) \<Rightarrow>
          (let glue = (if use_commas then [comma, space] else [space]);
               result = str_join glue names
           in if length names = 1 \<and> use_commas then quoted result else result))"

text \<open>A tag name as the parser returns it: not empty, no whitespace at either end.\<close>

definition trimmed :: "string \<Rightarrow> bool" where
  "trimmed w = (w \<noteq> [] \<and> \<not> isspace (hd w) \<and> \<not> isspace (last w))"

section \<open>The input read as segments\<close>

text \<open>
  The pieces of a string between its double quotes.  Counting from the first, the pieces
  at odd positions lie outside quotes and those at even positions inside.
\<close>

definition segments :: "string \<Rightarrow> string list" where
  "segments s = str_split dquote s"

fun unquoted_segments :: "string list \<Rightarrow> string list" where
  "unquoted_segments [] = []"
| "unquoted_segments [u] = [u]"
| "unquoted_segments (u # q # segs) = u # unquoted_segments segs"

fun quoted_segments :: "string list \<Rightarrow> string list" where
  "quoted_segments [] = []"
| "quoted_segments [u] = []"
| "quoted_segments (u # q # segs) = q # quoted_segments segs"

text \<open>
  The result as C1 words it, for an input \<open>pre + '"' + rest\<close> whose last quote is never
  closed: the unterminated text \<open>rest\<close> is split on the comma when it contains one, and
  every other unquoted chunk on the delimiter chosen by the commas outside quotes alone.
\<close>

definition claimed_unterminated_result :: "string \<Rightarrow> string \<Rightarrow> string list" where
  "claimed_unterminated_result pre rest =
     (let segs = segments pre;
          loose = (\<exists>u\<in>set (unquoted_segments segs). comma \<in> set u);
          delimiter = (if loose then comma else space)
      in sorted_set
           (filter (\<lambda>w. w \<noteq> []) (map strip (quoted_segments segs)) @
            concat (map (\<lambda>chunk. split_strip chunk delimiter) (unquoted_segments segs)) @
            split_strip rest (if comma \<in> set rest then comma else delimiter)))"

section \<open>Floating point\<close>

text \<open>
  A Python \<open>float\<close> is modelled by the real number it stands for.  Every arithmetic
  result is rounded to the nearest number with a significand of 53 bits, ties to the even
  significand, as binary64 does.  The exponent range of binary64 is modelled where it
  raises, at the conversion \<open>float(n)\<close> of an integer; infinities, subnormal numbers and
  the sign of zero are not modelled, and none of the operations below raises on them.
\<close>

text \<open>For \<open>x > 0\<close>, the \<open>e\<close> with \<open>2^e \<le> x < 2^(e+1)\<close>.\<close>

definition exponent :: "real \<Rightarrow> int" where
  "exponent x =
     (if 1 \<le> x then bitlen \<lfloor>x\<rfloor> - 1
      else (let k = bitlen \<lfloor>1 / x\<rfloor> - 1 in if x * 2 ^ nat k = 1 then - k else - k - 1))"

text \<open>The nearest integer, a tie going to the even one.\<close>

definition round_even :: "real \<Rightarrow> int" where
  "round_even y =
     (let f = \<lfloor>y\<rfloor>; d = y - of_int f
      in if d < 1 / 2 then f else if 1 / 2 < d then f + 1 else if even f then f else f + 1)"

definition rnd :: "real \<Rightarrow> real" where
  "rnd x =
     (if x = 0 then 0
      else (let q = 2 powi (exponent \<bar>x\<bar> - 52) in of_int (round_even (x / q)) * q))"

definition float_limit :: real where
  "float_limit = 2 ^ 1024"

text \<open>\<open>float(n)\<close> for an integer \<open>n\<close>: \<open>OverflowError\<close> when the rounded value is out of range.\<close>

definition py_float :: "int \<Rightarrow> error + real" where
  "py_float n =
     (let x = rnd (of_int n) in if float_limit \<le> \<bar>x\<bar> then Inl OverflowError else Inr x)"

text \<open>
  \<open>math.log(x)\<close>: a \<open>ValueError\<close> for \<open>x \<le> 0\<close>, otherwise the natural logarithm, taken
  here as correctly rounded.
\<close>

definition math_log :: "real \<Rightarrow> error + real" where
  "math_log x = (if x \<le> 0 then Inl (ValueError ''math domain error'') else Inr (rnd (ln x)))"

section \<open>Tag cloud\<close>

text \<open>
  A value passed as \<open>distribution\<close>: an integer or a string.  \<open>py_str\<close> is \<open>str(v)\<close>, what
  \<open>%s\<close> prints.
\<close>

datatype pyvalue = PyInt int | PyStr string

fun decimal :: "nat \<Rightarrow> string" where
  "decimal n =
     (if n < 10 then [char_of (48 + n)] else decimal (n div 10) @ [char_of (48 + n mod 10)])"

fun py_str :: "pyvalue \<Rightarrow> string" where
  "py_str (PyInt i) = (if i < 0 then CHR ''-'' # decimal (nat (- i)) else decimal (nat i))"
| "py_str (PyStr s) = s"

definition LOGARITHMIC :: pyvalue where
  "LOGARITHMIC = PyInt 1"

definition LINEAR :: pyvalue where
  "LINEAR = PyInt 2"

text \<open>A list comprehension whose element expression may raise: the first exception wins.\<close>

fun collect :: "('a \<Rightarrow> error + 'b) \<Rightarrow> 'a list \<Rightarrow> error + 'b list" where
  "collect f [] = Inr []"
| "collect f (x # xs) =
     (case f x of Inl e \<Rightarrow> Inl e
      | Inr y \<Rightarrow> (case collect f xs of Inl e \<Rightarrow> Inl e | Inr ys \<Rightarrow> Inr (y # ys)))"

text \<open>\<open>min_weight + i * delta\<close>, the integer \<open>i\<close> converted to a float by the product.\<close>

definition threshold_at :: "real \<Rightarrow> real \<Rightarrow> int \<Rightarrow> error + real" where
  "threshold_at min_weight delta i =
     (case py_float i of Inl e \<Rightarrow> Inl e
      | Inr fi \<Rightarrow> Inr (rnd (min_weight + rnd (fi * delta))))"

text \<open>\<open>_calculate_thresholds(min_weight, max_weight, steps)\<close>.\<close>

definition calculate_thresholds :: "real \<Rightarrow> real \<Rightarrow> int \<Rightarrow> error + real list" where
  "calculate_thresholds min_weight max_weight steps =
     (let diff = rnd (max_weight - min_weight) in
      case py_float steps of Inl e \<Rightarrow> Inl e
      | Inr fsteps \<Rightarrow>
          if fsteps = 0 then Inl ZeroDivisionError
          else (let delta = rnd (diff / fsteps)
                in collect (threshold_at min_weight delta) [1..steps]))"

text \<open>
  \<open>_calculate_tag_weight(weight, max_weight, distribution)\<close>; \<open>weight\<close> is the integer
  count of the tag, returned as it is on the first branch.  The translation \<open>_\<close> of the
  message is taken as the identity.
\<close>

definition calculate_tag_weight :: "int \<Rightarrow> real \<Rightarrow> pyvalue \<Rightarrow> error + real" where
  "calculate_tag_weight weight max_weight distribution =
     (if distribution = LINEAR \<or> max_weight = 1 then Inr (of_int weight)
      else if distribution = LOGARITHMIC then
        (case math_log (of_int weight) of Inl e \<Rightarrow> Inl e
         | Inr lw \<Rightarrow>
             (let p = rnd (lw * max_weight) in
              case math_log max_weight of Inl e \<Rightarrow> Inl e
              | Inr lm \<Rightarrow>
                  if lm = 0 then Inl ZeroDivisionError
                  else Inr (min (rnd (p / lm)) max_weight)))
      else Inl (ValueError
        (''Invalid distribution algorithm specified: '' @ py_str distribution @ ''.'')))"

text \<open>
  The loop \<open>for i in range(steps)\<close> over one tag; \<open>thresholds[i]\<close> is read only while
  \<open>font_set\<close> is false.  A tag for which no threshold is large enough keeps the
  \<open>font_size\<close> it had (\<open>None\<close>: the attribute is not set).
\<close>

fun font_loop :: "real \<Rightarrow> real list \<Rightarrow> nat list \<Rightarrow> bool \<Rightarrow> tag \<Rightarrow> error + tag" where
  "font_loop w ths [] font_set t = Inr t"
| "font_loop w ths (i # is) font_set t =
     (if \<not> font_set then
        (if i < length ths then
           (if w \<le> ths ! i then font_loop w ths is True (t\<lparr>font_size := Some (int i + 1)\<rparr>)
            else font_loop w ths is font_set t)
         else Inl IndexError)
      else font_loop w ths is font_set t)"

text \<open>The loop \<open>for tag in tags\<close>; the list returned holds the tags as the loop leaves them.\<close>

fun cloud_loop :: "real list \<Rightarrow> real \<Rightarrow> int \<Rightarrow> pyvalue \<Rightarrow> tag list \<Rightarrow> error + tag list" where
  "cloud_loop thresholds max_weight steps distribution [] = Inr []"
| "cloud_loop thresholds max_weight steps distribution (t # ts) =
     (case calculate_tag_weight (count t) max_weight distribution of Inl e \<Rightarrow> Inl e
      | Inr tag_weight \<Rightarrow>
          (case font_loop tag_weight thresholds [0..<nat steps] False t of Inl e \<Rightarrow> Inl e
           | Inr t' \<Rightarrow>
               (case cloud_loop thresholds max_weight steps distribution ts of Inl e \<Rightarrow> Inl e
                | Inr ts' \<Rightarrow> Inr (t' # ts'))))"

text \<open>\<open>calculate_cloud(tags, steps, distribution)\<close>.\<close>

definition calculate_cloud :: "tag list \<Rightarrow> int \<Rightarrow> pyvalue \<Rightarrow> error + tag list" where
  "calculate_cloud tags steps distribution =
     (if length tags > 0 then
        (let counts = map count tags in
         case py_float (Min (set counts)) of Inl e \<Rightarrow> Inl e
         | Inr min_weight \<Rightarrow>
             (case py_float (Max (set counts)) of Inl e \<Rightarrow> Inl e
              | Inr max_weight \<Rightarrow>
                  (case calculate_thresholds min_weight max_weight steps of Inl e \<Rightarrow> Inl e
                   | Inr thresholds \<Rightarrow>
                       cloud_loop thresholds max_weight steps distribution tags)))
      else Inr tags)"

section \<open>Properties of the string functions\<close>

lemma scan_raises_stop:
  "fst (scan st s) = StopIteration" "fst (scan_quoted st s) = StopIteration"
  by (induction st s and st s rule: scan_scan_quoted.induct) (simp_all add: Let_def)

lemma last_dropWhile: "dropWhile P xs \<noteq> [] \<Longrightarrow> last (dropWhile P xs) = last xs"
  by (induction xs) (auto split: if_splits)

lemma strip_result:
  assumes "strip s \<noteq> []"
  shows "\<not> isspace (hd (strip s))" "\<not> isspace (last (strip s))"
proof -
  let ?t = "dropWhile isspace s"
  let ?u = "dropWhile isspace (rev ?t)"
  from assms have u: "?u \<noteq> []" by (simp add: strip_def)
  have t: "?t \<noteq> []"
  proof
    assume a: "?t = []"
    have "?u = []" unfolding a by simp
    with u show False by simp
  qed
  have "hd (strip s) = last ?u" using u by (simp add: strip_def hd_rev)
  also have "\<dots> = last (rev ?t)" using u by (rule last_dropWhile)
  also have "\<dots> = hd ?t" using t by (simp add: last_rev)
  finally show "\<not> isspace (hd (strip s))" using t hd_dropWhile[of isspace s] by simp
  have "last (strip s) = hd ?u" using u by (simp add: strip_def last_rev)
  then show "\<not> isspace (last (strip s))" using u hd_dropWhile[of isspace "rev ?t"] by simp
qed

lemma dropWhile_hd_id: "xs \<noteq> [] \<Longrightarrow> \<not> P (hd xs) \<Longrightarrow> dropWhile P xs = xs"
  by (cases xs) auto

lemma strip_id: "w \<noteq> [] \<Longrightarrow> \<not> isspace (hd w) \<Longrightarrow> \<not> isspace (last w) \<Longrightarrow> strip w = w"
  by (simp add: strip_def dropWhile_hd_id hd_rev)


lemma split_strip_elem:
  "w \<in> set (split_strip s d) \<Longrightarrow> w \<noteq> [] \<and> \<not> isspace (hd w) \<and> \<not> isspace (last w)"
  by (auto simp: split_strip_def strip_result)

lemma sorted_set_props:
  "sorted (sorted_set ws)" "distinct (sorted_set ws)" "set (sorted_set ws) = set ws"
  by (simp_all add: sorted_set_def)

lemma scan_words:
  "list_all trimmed (words st) \<Longrightarrow> list_all trimmed (words (snd (scan st s)))"
  "list_all trimmed (words st) \<Longrightarrow> list_all trimmed (words (snd (scan_quoted st s)))"
  by (induction st s and st s rule: scan_scan_quoted.induct)
     (simp_all add: Let_def trimmed_def strip_result)

lemma split_chunks_trimmed:
  "list_all trimmed (words st) \<Longrightarrow> list_all trimmed (split_chunks (on_stop st))"
  by (auto simp: split_chunks_def on_stop_def Let_def list_all_iff trimmed_def dest: split_strip_elem)

lemma isspace_space [simp]: "isspace space"
  by (simp add: isspace_def space_def)


lemma collect_names_eq:
  "collect_names (ns, uc) ts =
     (ns @ map (\<lambda>t. if comma \<in> set (name t) then quoted (name t) else name t) ts,
      uc \<or> (\<exists>t\<in>set ts. comma \<notin> set (name t) \<and> space \<in> set (name t)))"
  by (induction ts arbitrary: ns uc) auto

lemma split_from_append:
  "d \<notin> set s \<Longrightarrow> split_from d cur (s @ t) = split_from d (cur @ s) t"
  by (induction s arbitrary: cur) auto

lemma split_from_join:
  assumes "\<forall>n\<in>set (n0 # ns). d \<notin> set n" "d \<notin> set pad"
  shows "split_from d cur (str_join (d # pad) (n0 # ns)) = (cur @ n0) # map (\<lambda>m. pad @ m) ns"
  using assms
proof (induction ns arbitrary: n0 cur)
  case Nil
  then show ?case using split_from_append[of d n0 cur "[]"] by simp
next
  case (Cons n1 ns)
  have "split_from d cur (str_join (d # pad) (n0 # n1 # ns))
      = split_from d cur (n0 @ d # (pad @ str_join (d # pad) (n1 # ns)))" by simp
  also have "\<dots> = split_from d (cur @ n0) (d # (pad @ str_join (d # pad) (n1 # ns)))"
    using Cons.prems by (intro split_from_append) simp
  also have "\<dots> = (cur @ n0) # split_from d [] (pad @ str_join (d # pad) (n1 # ns))" by simp
  also have "split_from d [] (pad @ str_join (d # pad) (n1 # ns))
      = split_from d pad (str_join (d # pad) (n1 # ns))"
    using Cons.prems split_from_append[of d pad "[]"] by simp
  also have "\<dots> = (pad @ n1) # map (\<lambda>m. pad @ m) ns"
    using Cons.prems by (intro Cons.IH) simp_all
  finally show ?case by simp
qed

lemma strip_pad:
  assumes "\<forall>c\<in>set pad. isspace c" "trimmed m"
  shows "strip (pad @ m) = m"
proof -
  have "dropWhile isspace (pad @ m) = dropWhile isspace m"
    using assms(1) by (simp add: dropWhile_append)
  also have "\<dots> = m" using assms(2) by (simp add: trimmed_def dropWhile_hd_id)
  finally have "strip (pad @ m) = rev (dropWhile isspace (rev m))" by (simp add: strip_def)
  also have "\<dots> = strip m" using assms(2) by (simp add: strip_def trimmed_def dropWhile_hd_id)
  also have "\<dots> = m" using assms(2) by (simp add: trimmed_def strip_id)
  finally show ?thesis .
qed

lemma split_strip_join:
  assumes "\<forall>n\<in>set ns. trimmed n \<and> d \<notin> set n" "d \<notin> set pad" "\<forall>c\<in>set pad. isspace c"
    and "ns \<noteq> []"
  shows "split_strip (str_join (d # pad) ns) d = ns"
proof -
  from assms(4) obtain n0 ms where ns: "ns = n0 # ms" by (cases ns) auto
  have "str_split d (str_join (d # pad) ns) = n0 # map (\<lambda>m. pad @ m) ms"
    unfolding str_split_def ns using assms(1,2) split_from_join[of n0 ms d pad "[]"]
    by (simp add: ns)
  moreover have "strip n0 = n0" "n0 \<noteq> []"
    using assms(1) strip_pad[of "[]" n0] by (simp_all add: ns trimmed_def)
  moreover have "map strip (map (\<lambda>m. pad @ m) ms) = ms"
    using assms(1,3) by (simp add: ns strip_pad map_idI)
  moreover have "filter (\<lambda>w. w \<noteq> []) ms = ms"
    using assms(1) by (simp add: ns trimmed_def filter_id_conv)
  ultimately show ?thesis by (simp add: split_strip_def ns)
qed

lemma scan_quoted_plain:
  "dquote \<notin> set s \<Longrightarrow> scan_quoted st (s @ t) = scan_quoted (st\<lparr>buffer := buffer st @ s\<rparr>) t"
  by (induction s arbitrary: st) auto

lemma scan_plain:
  "dquote \<notin> set s \<Longrightarrow>
   scan st (s @ t) =
     scan (st\<lparr>saw_loose_comma := saw_loose_comma st \<or> comma \<in> set s, buffer := buffer st @ s\<rparr>) t"
  by (induction s arbitrary: st) (auto simp: Let_def)

lemma scan_append:
  "scan st (s @ t) = (if even (count_list s dquote) then scan (snd (scan st s)) t
                      else scan_quoted (snd (scan st s)) t)"
  "scan_quoted st (s @ t) = (if even (count_list s dquote) then scan_quoted (snd (scan_quoted st s)) t
                      else scan (snd (scan_quoted st s)) t)"
  by (induction st s and st s rule: scan_scan_quoted.induct) (simp_all add: Let_def)

lemma set_str_join: "set (str_join glue ns) \<subseteq> set glue \<union> \<Union> (set ` set ns)"
  by (induction glue ns rule: str_join.induct) auto

lemma str_join_has_glue: "2 \<le> length ns \<Longrightarrow> set glue \<subseteq> set (str_join glue ns)"
  by (induction glue ns rule: str_join.induct) auto

lemma str_join_nonempty: "ns \<noteq> [] \<Longrightarrow> hd ns \<noteq> [] \<Longrightarrow> str_join glue ns \<noteq> []"
  by (induction glue ns rule: str_join.induct) auto

lemma parse_quoted_name:
  assumes "trimmed n" "dquote \<notin> set n"
  shows "parse_tag_input (Some (quoted n)) = Inr [n]"
proof -
  have "scan init_state (quoted n) = scan_quoted (init_state\<lparr>open_quote := True\<rparr>) (n @ [dquote])"
    by (simp add: quoted_def init_state_def)
  also have "\<dots> = scan_quoted (init_state\<lparr>open_quote := True, buffer := n\<rparr>) [dquote]"
    using assms(2) scan_quoted_plain[of n "init_state\<lparr>open_quote := True\<rparr>" "[dquote]"]
    by (simp add: init_state_def)
  also have "\<dots> = (StopIteration, init_state\<lparr>words := [n]\<rparr>)"
    using assms(1) by (simp add: init_state_def trimmed_def strip_id)
  finally show ?thesis
    by (simp add: quoted_def on_stop_def split_chunks_def init_state_def sorted_set_def)
qed

lemma parse_comma_joined:
  assumes "\<forall>n\<in>set ns. trimmed n \<and> comma \<notin> set n \<and> dquote \<notin> set n" "2 \<le> length ns"
  shows "parse_tag_input (Some (str_join [comma, space] ns)) = Inr (sorted_set ns)"
proof -
  let ?r = "str_join [comma, space] ns"
  have c: "comma \<in> set ?r" using str_join_has_glue[OF assms(2), of "[comma, space]"] by simp
  then have ne: "?r \<noteq> []" by auto
  have "dquote \<noteq> comma" "dquote \<noteq> space" by (simp_all add: dquote_def comma_def space_def)
  then have q: "dquote \<notin> set ?r"
    using assms(1) set_str_join[of "[comma, space]" ns] by auto
  have "scan init_state ?r = (StopIteration, init_state\<lparr>saw_loose_comma := True, buffer := ?r\<rparr>)"
    using scan_plain[OF q, of init_state "[]"] c by (simp add: init_state_def)
  moreover have "comma \<notin> set [space]" by (simp add: comma_def space_def)
  then have "split_strip ?r comma = ns"
    using assms by (intro split_strip_join) auto
  ultimately show ?thesis using ne c
    by (simp add: on_stop_def split_chunks_def init_state_def)
qed

lemma parse_space_joined:
  assumes "\<forall>n\<in>set ns. trimmed n \<and> comma \<notin> set n \<and> dquote \<notin> set n \<and> space \<notin> set n"
  shows "parse_tag_input (Some (str_join [space] ns)) = Inr (sorted_set ns)"
proof (cases "ns = []")
  case True
  then show ?thesis by (simp add: sorted_set_def)
next
  case False
  let ?r = "str_join [space] ns"
  from False assms have "hd ns \<noteq> []" by (cases ns) (auto simp: trimmed_def)
  with False have ne: "?r \<noteq> []" by (rule str_join_nonempty)
  have "comma \<noteq> space" "dquote \<noteq> space" by (simp_all add: dquote_def comma_def space_def)
  then have q: "comma \<notin> set ?r" "dquote \<notin> set ?r"
    using assms set_str_join[of "[space]" ns] by auto
  have "split_strip ?r space = ns"
    using assms False by (intro split_strip_join) auto
  with ne q show ?thesis by simp
qed

lemma edit_string_closed:
  "edit_string_for_tags tags =
     (let names = map (\<lambda>t. if comma \<in> set (name t) then quoted (name t) else name t) tags;
          use_commas = (\<exists>t\<in>set tags. comma \<notin> set (name t) \<and> space \<in> set (name t));
          result = str_join (if use_commas then [comma, space] else [space]) names
      in if length tags = 1 \<and> use_commas then quoted result else result)"
  by (simp add: edit_string_for_tags_def collect_names_eq Let_def)

lemma split_from_nonempty: "split_from d cur s \<noteq> []"
  by (induction s arbitrary: cur) auto

lemma str_join_Cons: "ys \<noteq> [] \<Longrightarrow> str_join glue (x # ys) = x @ glue @ str_join glue ys"
  by (cases ys) auto

lemma join_split_from: "str_join [d] (split_from d cur s) = cur @ s"
  by (induction s arbitrary: cur) (simp_all add: str_join_Cons split_from_nonempty)

lemma split_from_no_sep:
  "d \<notin> set cur \<Longrightarrow> seg \<in> set (split_from d cur s) \<Longrightarrow> d \<notin> set seg"
proof (induction s arbitrary: cur)
  case Nil
  then show ?case by simp
next
  case (Cons c cs)
  show ?case
  proof (cases "c = d")
    case True
    with Cons.prems(2) have "seg = cur \<or> seg \<in> set (split_from d [] cs)" by simp
    then show ?thesis using Cons.prems(1) Cons.IH[of "[]"] by auto
  next
    case False
    with Cons.prems(2) have "seg \<in> set (split_from d (cur @ [c]) cs)" by simp
    moreover have "d \<notin> set (cur @ [c])" using False Cons.prems(1) by simp
    ultimately show ?thesis by (rule Cons.IH[rotated])
  qed
qed

lemma length_split_from: "length (split_from d cur s) = count_list s d + 1"
  by (induction s arbitrary: cur) auto

lemma split_strip_empty: "split_strip [] d = []"
  by (simp add: split_strip_def str_split_def strip_def)

lemma scan_segments:
  assumes "odd (length segs)" "\<forall>seg\<in>set segs. dquote \<notin> set seg" "buffer st = []"
  shows "words (snd (scan st (str_join [dquote] segs))) =
           words st @ filter (\<lambda>w. w \<noteq> []) (map strip (quoted_segments segs)) \<and>
         to_be_split (snd (scan st (str_join [dquote] segs))) @
           (if buffer (snd (scan st (str_join [dquote] segs))) \<noteq> []
            then [buffer (snd (scan st (str_join [dquote] segs)))] else []) =
           to_be_split st @ filter (\<lambda>w. w \<noteq> []) (unquoted_segments segs) \<and>
         saw_loose_comma (snd (scan st (str_join [dquote] segs))) =
           (saw_loose_comma st \<or> (\<exists>u\<in>set (unquoted_segments segs). comma \<in> set u))"
  using assms
proof (induction segs arbitrary: st rule: unquoted_segments.induct)
  case 1
  then show ?case by simp
next
  case (2 u)
  then have "scan st u = scan (st\<lparr>saw_loose_comma := saw_loose_comma st \<or> comma \<in> set u,
      buffer := buffer st @ u\<rparr>) []"
    using scan_plain[of u st "[]"] by simp
  with 2 show ?case by simp
next
  case (3 u q segs)
  from "3.prems" have ne: "segs \<noteq> []" and od: "odd (length segs)" by auto
  from "3.prems" have nq: "dquote \<notin> set u" "dquote \<notin> set q" "\<forall>seg\<in>set segs. dquote \<notin> set seg"
    by auto
  let ?T = "str_join [dquote] segs"
  let ?stA = "st\<lparr>saw_loose_comma := saw_loose_comma st \<or> comma \<in> set u, buffer := u\<rparr>"
  let ?stB = "st\<lparr>saw_loose_comma := saw_loose_comma st \<or> comma \<in> set u,
      to_be_split := to_be_split st @ (if u \<noteq> [] then [u] else []),
      buffer := [], open_quote := True\<rparr>"
  let ?stC = "st\<lparr>saw_loose_comma := saw_loose_comma st \<or> comma \<in> set u,
      to_be_split := to_be_split st @ (if u \<noteq> [] then [u] else []),
      words := words st @ (if strip q \<noteq> [] then [strip q] else []),
      buffer := [], open_quote := False\<rparr>"
  have jn: "str_join [dquote] (u # q # segs) = u @ dquote # q @ dquote # ?T"
    using ne by (simp add: str_join_Cons)
  have "scan st (u @ dquote # q @ dquote # ?T) = scan ?stA (dquote # q @ dquote # ?T)"
    using scan_plain[OF nq(1), of st] "3.prems"(3) by simp
  also have "\<dots> = scan_quoted ?stB (q @ dquote # ?T)"
    using "3.prems"(3) by (cases "u = []") (simp_all add: Let_def)
  also have "\<dots> = scan_quoted (?stB\<lparr>buffer := q\<rparr>) (dquote # ?T)"
    using scan_quoted_plain[OF nq(2), of ?stB] by simp
  also have "\<dots> = scan ?stC ?T"
  proof (cases "strip q = []")
    case True
    then show ?thesis by (cases "q = []") (simp_all add: Let_def)
  next
    case False
    then have "q \<noteq> []" by (auto simp: strip_def)
    with False show ?thesis by (simp add: Let_def)
  qed
  finally have sc: "scan st (str_join [dquote] (u # q # segs)) = scan ?stC ?T" by (simp only: jn)
  have b: "buffer ?stC = []" by simp
  from "3.IH"[OF od nq(3) b] show ?case
    unfolding sc by auto
qed

lemma parse_unterminated_state:
  assumes "even (count_list pre dquote)" "dquote \<notin> set rest"
    and "scan init_state pre = (StopIteration, st)"
  shows "parse_tag_input (Some (pre @ dquote # rest)) =
     Inr (sorted_set (words st @ concat (map
       (\<lambda>chunk. split_strip chunk (if saw_loose_comma st \<or> comma \<in> set rest then comma else space))
       ((to_be_split st @ (if buffer st \<noteq> [] then [buffer st] else [])) @
          (if rest \<noteq> [] then [rest] else [])))))"
proof -
  let ?st1 = "if buffer st \<noteq> [] then st\<lparr>to_be_split := to_be_split st @ [buffer st], buffer := []\<rparr> else st"
  let ?st2 = "?st1\<lparr>open_quote := True\<rparr>"
  have "scan init_state (pre @ dquote # rest) = scan st (dquote # rest)"
    using assms(1,3) by (simp add: scan_append(1))
  also have "\<dots> = scan_quoted ?st2 rest" by (simp add: Let_def)
  also have "\<dots> = scan_quoted (?st2\<lparr>buffer := buffer ?st2 @ rest\<rparr>) []"
    using scan_quoted_plain[OF assms(2), of ?st2 "[]"] by simp
  also have "\<dots> = (StopIteration, ?st2\<lparr>buffer := rest\<rparr>)" by simp
  finally have sc: "scan init_state (pre @ dquote # rest) = (StopIteration, ?st2\<lparr>buffer := rest\<rparr>)" .
  show ?thesis
    by (simp add: sc on_stop_def split_chunks_def Let_def)
qed

lemma concat_split_strip_filter:
  "concat (map (\<lambda>chunk. split_strip chunk d) (filter (\<lambda>w. w \<noteq> []) xs)) =
   concat (map (\<lambda>chunk. split_strip chunk d) xs)"
  by (induction xs) (simp_all add: split_strip_empty)

section \<open>The parser\<close>

text \<open>
  C1 (as amended): when the input ends inside a quote that was never closed, the text
  after that quote is one more unquoted chunk, and one delimiter splits every unquoted
  chunk, the unterminated text and all the text outside the quotes before it: the comma
  when a comma stands outside the quotes or in the unterminated text, the space
  otherwise.  The result is the sorted set of the trimmed, non-empty quoted spans and of
  the pieces of those chunks.  In particular \<open>parse('"a,b')\<close> is \<open>["a", "b"]\<close>.
\<close>

theorem parse_unterminated_quote:
  assumes "even (count_list pre dquote)" "dquote \<notin> set rest"
  shows "parse_tag_input (Some (pre @ dquote # rest)) =
     Inr (sorted_set
       (filter (\<lambda>w. w \<noteq> []) (map strip (quoted_segments (segments pre))) @
        concat (map
          (\<lambda>chunk. split_strip chunk
             (if (\<exists>u\<in>set (unquoted_segments (segments pre)). comma \<in> set u) \<or> comma \<in> set rest
              then comma else space))
          (unquoted_segments (segments pre) @ [rest])))) \<and>
     parse_tag_input (Some [dquote, CHR ''a'', comma, CHR ''b'']) = Inr [''a'', ''b'']"
proof -
  define segs where "segs = segments pre"
  define st where "st = snd (scan init_state pre)"
  define d where "d = (if (\<exists>u\<in>set (unquoted_segments segs). comma \<in> set u) \<or> comma \<in> set rest
      then comma else space)"
  have pre: "pre = str_join [dquote] segs"
    using join_split_from[of dquote "[]" pre] by (simp add: segs_def segments_def str_split_def)
  have od: "odd (length segs)"
    using assms(1) by (simp add: segs_def segments_def str_split_def length_split_from)
  have nq: "\<forall>seg\<in>set segs. dquote \<notin> set seg"
    using split_from_no_sep[of dquote "[]" _ pre] by (auto simp: segs_def segments_def str_split_def)
  have b: "buffer init_state = []" by (simp add: init_state_def)
  have i: "words init_state = []" "to_be_split init_state = []" "saw_loose_comma init_state = False"
    by (simp_all add: init_state_def)
  note seg = scan_segments[OF od nq b, folded pre, folded st_def]
  from seg have w: "words st = filter (\<lambda>w. w \<noteq> []) (map strip (quoted_segments segs))"
    by (simp only: i append_Nil)
  from seg have c: "to_be_split st @ (if buffer st \<noteq> [] then [buffer st] else []) =
        filter (\<lambda>w. w \<noteq> []) (unquoted_segments segs)"
    by (simp only: i append_Nil)
  from seg have s: "saw_loose_comma st = (\<exists>u\<in>set (unquoted_segments segs). comma \<in> set u)"
    by (simp only: i simp_thms)
  have sc: "scan init_state pre = (StopIteration, st)"
    using scan_raises_stop(1)[of init_state pre] by (simp add: st_def prod_eq_iff)
  have chunks: "concat (map (\<lambda>chunk. split_strip chunk d)
        (filter (\<lambda>w. w \<noteq> []) (unquoted_segments segs) @ (if rest \<noteq> [] then [rest] else []))) =
      concat (map (\<lambda>chunk. split_strip chunk d) (unquoted_segments segs @ [rest]))"
    by (simp add: concat_split_strip_filter split_strip_empty)
  have "parse_tag_input (Some (pre @ dquote # rest)) =
      Inr (sorted_set (words st @ concat (map (\<lambda>chunk. split_strip chunk d)
        ((to_be_split st @ (if buffer st \<noteq> [] then [buffer st] else [])) @
           (if rest \<noteq> [] then [rest] else [])))))"
    using parse_unterminated_state[OF assms sc] by (simp only: d_def s)
  then have "parse_tag_input (Some (pre @ dquote # rest)) =
      Inr (sorted_set (filter (\<lambda>w. w \<noteq> []) (map strip (quoted_segments segs)) @
        concat (map (\<lambda>chunk. split_strip chunk d) (unquoted_segments segs @ [rest]))))"
    by (simp only: w c chunks)
  moreover have "parse_tag_input (Some [dquote, CHR ''a'', comma, CHR ''b'']) = Inr [''a'', ''b'']"
    by code_simp
  ultimately show ?thesis unfolding d_def segs_def by (rule conjI)
qed

theorem parse_unterminated_quote_witness:
  "parse_tag_input (Some ((''x '' @ quoted ''p q'' @ '' y '') @ dquote # ''c,d'')) =
     Inr [''c'', ''d'', ''p q'', ''x'', ''y'']"
proof -
  have e: "even (count_list (''x '' @ quoted ''p q'' @ '' y '') dquote)" by code_simp
  have q: "dquote \<notin> set ''c,d''" by code_simp
  have v: "sorted_set
       (filter (\<lambda>w. w \<noteq> []) (map strip (quoted_segments (segments (''x '' @ quoted ''p q'' @ '' y '')))) @
        concat (map
          (\<lambda>chunk. split_strip chunk
             (if (\<exists>u\<in>set (unquoted_segments (segments (''x '' @ quoted ''p q'' @ '' y ''))). comma \<in> set u) \<or> comma \<in> set ''c,d''
              then comma else space))
          (unquoted_segments (segments (''x '' @ quoted ''p q'' @ '' y '')) @ [''c,d''])))
      = [''c'', ''d'', ''p q'', ''x'', ''y'']"
    by code_simp
  from parse_unterminated_quote[OF e q] show ?thesis
    by (simp only: v)
qed

text \<open>
  C1 as stated fails: a comma in the unterminated text forces the comma on the chunks
  before it as well, so \<open>a b\<close> stays one tag where the delimiter chosen by the commas
  outside quotes would split it.
\<close>

theorem unterminated_comma_forces_all_chunks:
  "parse_tag_input (Some (''a b '' @ dquote # ''c,d'')) = Inr [''a b'', ''c'', ''d''] \<and>
   claimed_unterminated_result ''a b '' ''c,d'' = [''a'', ''b'', ''c'', ''d'']"
  by code_simp




text \<open>
  C5 (as amended): for tag names that are not empty, have no whitespace at either end and
  contain neither a comma nor a double quote, parsing the string that
  \<open>edit_string_for_tags\<close> renders gives the sorted set of the names.
\<close>

theorem parse_edit_string_roundtrip:
  assumes "\<forall>t\<in>set tags. trimmed (name t) \<and> comma \<notin> set (name t) \<and> dquote \<notin> set (name t)"
  shows "parse_tag_input (Some (edit_string_for_tags tags)) = Inr (sorted_set (map name tags))"
proof -
  define uc where "uc = (\<exists>t\<in>set tags. comma \<notin> set (name t) \<and> space \<in> set (name t))"
  have names: "map (\<lambda>t. if comma \<in> set (name t) then quoted (name t) else name t) tags = map name tags"
    using assms by simp
  have e: "edit_string_for_tags tags =
      (if length tags = 1 \<and> uc then quoted (str_join [comma, space] (map name tags))
       else str_join (if uc then [comma, space] else [space]) (map name tags))"
    unfolding edit_string_closed Let_def names uc_def by auto
  have all: "\<forall>n\<in>set (map name tags). trimmed n \<and> comma \<notin> set n \<and> dquote \<notin> set n"
    using assms by simp
  show ?thesis
  proof (cases uc)
    case False
    then have "\<forall>n\<in>set (map name tags). trimmed n \<and> comma \<notin> set n \<and> dquote \<notin> set n \<and> space \<notin> set n"
      using assms unfolding uc_def by auto
    then have "parse_tag_input (Some (str_join [space] (map name tags))) = Inr (sorted_set (map name tags))"
      by (rule parse_space_joined)
    with False show ?thesis by (simp only: e simp_thms if_False)
  next
    case True
    then have ne: "tags \<noteq> []" unfolding uc_def by auto
    show ?thesis
    proof (cases "length tags = 1")
      case one: True
      then obtain t where t: "tags = [t]" by (cases tags) auto
      with assms have "parse_tag_input (Some (quoted (name t))) = Inr [name t]"
        by (intro parse_quoted_name) simp_all
      moreover have "edit_string_for_tags tags = quoted (name t)"
        using True one e unfolding t by simp
      ultimately show ?thesis by (simp add: t sorted_set_def)
    next
      case many: False
      with ne have "2 \<le> length (map name tags)" by (cases tags) (auto simp: Suc_le_eq)
      with all have "parse_tag_input (Some (str_join [comma, space] (map name tags)))
          = Inr (sorted_set (map name tags))"
        by (rule parse_comma_joined)
      with True many show ?thesis by (simp only: e simp_thms if_False if_True)
    qed
  qed
qed

theorem parse_edit_string_roundtrip_witness:
  "parse_tag_input (Some (edit_string_for_tags
      [\<lparr>name = ''foo bar'', count = 2, font_size = None\<rparr>,
       \<lparr>name = ''baz'', count = 1, font_size = None\<rparr>])) = Inr [''baz'', ''foo bar'']"
proof -
  have "sorted_set [''foo bar'', ''baz''] = [''baz'', ''foo bar'']" by code_simp
  then show ?thesis
    using parse_edit_string_roundtrip[of
      "[\<lparr>name = ''foo bar'', count = 2, font_size = None\<rparr>,
        \<lparr>name = ''baz'', count = 1, font_size = None\<rparr>]"]
    by (simp add: trimmed_def isspace_def comma_def dquote_def)
qed

text \<open>
  C5 as stated fails: a name with a double quote has no comma and no whitespace, and comes
  back as two tags; an empty name comes back as no tag.
\<close>

theorem roundtrip_counterexample:
  "parse_tag_input (Some (edit_string_for_tags
      [\<lparr>name = [CHR ''a'', dquote, CHR ''b''], count = 1, font_size = None\<rparr>])) = Inr [''a'', ''b''] \<and>
   sorted_set [[CHR ''a'', dquote, CHR ''b'']] = [[CHR ''a'', dquote, CHR ''b'']] \<and>
   parse_tag_input (Some (edit_string_for_tags [\<lparr>name = [], count = 1, font_size = None\<rparr>])) = Inr [] \<and>
   sorted_set [[]] = [[]]"
  by code_simp

text \<open>
  C6 (as amended): \<open>edit_string_for_tags\<close> puts each name that contains a comma in
  double quotes; it joins the names with \<open>", "\<close> when a name that is not quoted contains
  a space character and with one space otherwise; and when there is one name and the
  comma joiner was chosen, the whole result is put in double quotes.
\<close>

theorem edit_string_for_tags_closed_form:
  "edit_string_for_tags tags =
     (let names = map (\<lambda>t. if comma \<in> set (name t) then quoted (name t) else name t) tags;
          use_commas = (\<exists>t\<in>set tags. comma \<notin> set (name t) \<and> space \<in> set (name t));
          result = str_join (if use_commas then [comma, space] else [space]) names
      in if length tags = 1 \<and> use_commas then quoted result else result)"
proof -
  have "collect_names ([], False) tags =
      (map (\<lambda>t. if comma \<in> set (name t) then quoted (name t) else name t) tags,
       \<exists>t\<in>set tags. comma \<notin> set (name t) \<and> space \<in> set (name t))"
    by (simp add: collect_names_eq)
  then show ?thesis
    by (simp add: edit_string_for_tags_def Let_def)
qed

theorem edit_string_for_tags_closed_form_witness:
  "edit_string_for_tags [\<lparr>name = ''foo bar'', count = 1, font_size = None\<rparr>] = quoted ''foo bar''"
  using edit_string_for_tags_closed_form[of "[\<lparr>name = ''foo bar'', count = 1, font_size = None\<rparr>]"]
  by (simp add: comma_def space_def)

text \<open>
  C6 as stated fails: a tab is whitespace, and a name with a tab and no space does not
  select the comma joiner.
\<close>

theorem edit_string_tab_counterexample:
  "isspace (CHR 0x09) \<and>
   edit_string_for_tags
     [\<lparr>name = [CHR ''a'', CHR 0x09, CHR ''b''], count = 1, font_size = None\<rparr>,
      \<lparr>name = ''c'', count = 1, font_size = None\<rparr>] = [CHR ''a'', CHR 0x09, CHR ''b'', CHR '' '', CHR ''c''] \<and>
   str_join [comma, space] [[CHR ''a'', CHR 0x09, CHR ''b''], ''c'']
     = [CHR ''a'', CHR 0x09, CHR ''b'', CHR '','', CHR '' '', CHR ''c'']"
  by code_simp

text \<open>
  C8: whatever the input, the list returned by \<open>parse_tag_input\<close> is sorted, has no
  duplicates, and each of its elements is a non-empty name without whitespace at either
  end.
\<close>

theorem parse_sorted_unique_trimmed:
  assumes "parse_tag_input inp = Inr ws"
  shows "sorted ws \<and> distinct ws \<and>
    (\<forall>w\<in>set ws. trimmed w)"
proof (cases inp)
  case None
  with assms show ?thesis by simp
next
  case (Some s)
  obtain e st where sc: "scan init_state s = (e, st)" by (cases "scan init_state s")
  have e: "e = StopIteration" using scan_raises_stop(1)[of init_state s] sc by simp
  have "list_all trimmed (words init_state)" by (simp add: init_state_def)
  then have "list_all trimmed (words st)" using scan_words(1)[of init_state s] sc by simp
  then have tr: "list_all trimmed (split_chunks (on_stop st))" by (rule split_chunks_trimmed)
  have "list_all trimmed (split_strip s space)"
    by (auto simp: list_all_iff trimmed_def dest: split_strip_elem)
  with tr assms Some sc e show ?thesis
    by (auto simp: sorted_set_props list_all_iff trimmed_def split: if_splits)
qed

theorem parse_sorted_unique_trimmed_witness:
  "parse_tag_input (Some ''b  a b'') = Inr [''a'', ''b''] \<and> sorted [''a'', ''b''] \<and>
   distinct [''a'', ''b''] \<and> trimmed ''a'' \<and> trimmed ''b''"
proof -
  have h: "parse_tag_input (Some ''b  a b'') = Inr [''a'', ''b'']" by code_simp
  show ?thesis using h parse_sorted_unique_trimmed[OF h] by simp
qed

text \<open>
  C9: \<open>parse_tag_input\<close> returns a list for every input, the only exception of its body
  being the \<open>StopIteration\<close> it catches; \<open>None\<close> and the empty string give the empty list.
\<close>

theorem parse_tag_input_total:
  "(\<exists>ws. parse_tag_input inp = Inr ws) \<and> parse_tag_input None = Inr [] \<and>
   parse_tag_input (Some []) = Inr []"
proof -
  have "\<exists>ws. parse_tag_input inp = Inr ws"
  proof (cases inp)
    case None
    then show ?thesis by simp
  next
    case (Some s)
    obtain e st where sc: "scan init_state s = (e, st)" by (cases "scan init_state s")
    have "e = StopIteration" using scan_raises_stop(1)[of init_state s] sc by simp
    with Some sc show ?thesis by simp
  qed
  then show ?thesis by simp
qed

theorem parse_tag_input_total_witness:
  "\<exists>ws. parse_tag_input (Some [dquote, dquote, comma, dquote]) = Inr ws"
  using parse_tag_input_total[of "Some [dquote, dquote, comma, dquote]"] by simp

section \<open>Properties of the rounding\<close>

lemma float_limit_code [code]:
  "float_limit = 179769313486231590772930519078902473361797697894230657273430081157732675805500963132708477322407536021120113879871393357658789768814416622492847430639474124377767893424865485276302219601246094119453082952085005768838150682342462881473913110540827237163350510684586298239947245938479716304835356329624224137216"
  by (simp add: float_limit_def)

lemma floor_pow2_bounds:
  fixes y :: real
  assumes "1 \<le> y"
  shows "2 ^ nat (bitlen \<lfloor>y\<rfloor> - 1) \<le> y" "y < 2 ^ nat (bitlen \<lfloor>y\<rfloor>)"
    "1 \<le> bitlen \<lfloor>y\<rfloor>"
proof -
  let ?n = "\<lfloor>y\<rfloor>"
  have n: "0 < ?n" using assms by simp
  from bitlen_bounds[OF n] have lo: "2 ^ nat (bitlen ?n - 1) \<le> ?n" and hi: "?n < 2 ^ nat (bitlen ?n)"
    by simp_all
  have "(2::real) ^ nat (bitlen ?n - 1) = of_int (2 ^ nat (bitlen ?n - 1))" by simp
  also have "\<dots> \<le> of_int ?n" using lo by (simp only: of_int_le_iff)
  also have "\<dots> \<le> y" by simp
  finally show "2 ^ nat (bitlen ?n - 1) \<le> y" .
  from hi have "?n + 1 \<le> 2 ^ nat (bitlen ?n)" by simp
  then have "of_int (?n + 1) \<le> (of_int (2 ^ nat (bitlen ?n)) :: real)" by (simp only: of_int_le_iff)
  then have a: "of_int ?n + 1 \<le> (2::real) ^ nat (bitlen ?n)" by simp
  have b: "y < of_int ?n + 1" by linarith
  from a b show "y < 2 ^ nat (bitlen ?n)" by linarith
  show "1 \<le> bitlen ?n" using n bitlen_eq_zero_iff[of ?n] bitlen_nonneg[of ?n] by linarith
qed

lemma exponent_bounds:
  assumes "0 < x"
  shows "2 powi exponent x \<le> x" "x < 2 powi (exponent x + 1)"
proof -
  have "2 powi exponent x \<le> x \<and> x < 2 powi (exponent x + 1)"
  proof (cases "1 \<le> x")
    case True
    from floor_pow2_bounds[OF True] True show ?thesis
      by (simp add: exponent_def power_int_def nat_add_distrib)
  next
    case False
    define k where "k = bitlen \<lfloor>1 / x\<rfloor> - 1"
    have y: "1 \<le> 1 / x" using assms False by simp
    from floor_pow2_bounds[OF y] have lo: "2 ^ nat k \<le> 1 / x" and hi: "1 / x < 2 ^ nat (k + 1)"
      and k: "0 \<le> k" by (simp_all add: k_def)
    have hi': "1 / 2 ^ nat (k + 1) < x"
      using hi assms by (simp add: field_simps)
    have lo': "x \<le> 1 / 2 ^ nat k"
      using lo assms by (simp add: field_simps)
    have e: "exponent x = (if x * 2 ^ nat k = 1 then - k else - k - 1)"
      using False by (simp add: exponent_def k_def Let_def)
    have p1: "(2::real) powi (- k) = 1 / 2 ^ nat k" using k by (simp add: power_int_def field_simps)
    have p2: "(2::real) powi (- k - 1) = 1 / 2 ^ nat (k + 1)"
      using k by (simp add: power_int_def field_simps nat_add_distrib)
    have "(2::real) powi (- k + 1) = 2 powi (- k) * 2 powi 1"
      by (rule power_int_add) simp
    then have p3: "(2::real) powi (- k + 1) = 2 / 2 ^ nat k"
      by (simp add: p1)
    show ?thesis
    proof (cases "x * 2 ^ nat k = 1")
      case True
      then have x: "x = 1 / 2 ^ nat k" by (simp add: field_simps)
      have "(1::real) / 2 ^ nat k < 2 / 2 ^ nat k" by (simp add: divide_strict_right_mono)
      with True e p1 p3 x show ?thesis by simp
    next
      case ne: False
      then have "x \<noteq> 1 / 2 ^ nat k" by (simp add: field_simps)
      with lo' have "x < 1 / 2 ^ nat k" by simp
      with ne e p1 p2 hi' show ?thesis by simp
    qed
  qed
  then show "2 powi exponent x \<le> x" "x < 2 powi (exponent x + 1)" by simp_all
qed

lemma round_even_ge: "of_int n \<le> y \<Longrightarrow> n \<le> round_even y"
proof -
  assume "of_int n \<le> y"
  then have "n \<le> \<lfloor>y\<rfloor>" by (simp add: le_floor_iff)
  then show ?thesis by (simp add: round_even_def Let_def)
qed

lemma round_even_le: 
  assumes "y \<le> of_int n" 
  shows "round_even y \<le> n"
proof (cases "y = of_int n")
  case True
  then show ?thesis by (simp add: round_even_def)
next
  case False
  with assms have "y < of_int n" by simp
  then have "\<lfloor>y\<rfloor> < n" by (simp add: floor_less_iff)
  then show ?thesis by (simp add: round_even_def Let_def)
qed

lemma round_even_neg: "round_even (- y) = - round_even y"
proof (cases "y = of_int \<lfloor>y\<rfloor>")
  case True
  then obtain n where "y = of_int n" ..
  then show ?thesis by (simp add: round_even_def)
next
  case False
  then have f: "\<lfloor>- y\<rfloor> = - \<lfloor>y\<rfloor> - 1"
    by (simp add: floor_minus ceiling_altdef)
  show ?thesis
    by (auto simp add: round_even_def Let_def f)
qed

lemma rnd_neg: "rnd (- x) = - rnd x"
  by (simp add: rnd_def Let_def round_even_neg)

lemma rnd_pos_bounds:
  assumes "0 < x"
  shows "2 powi exponent x \<le> rnd x" "rnd x \<le> 2 powi (exponent x + 1)"
proof -
  define e where "e = exponent x"
  define q :: real where "q = 2 powi (e - 52)"
  have q: "0 < q" by (simp add: q_def)
  have r: "rnd x = of_int (round_even (x / q)) * q"
    using assms by (simp add: rnd_def q_def e_def Let_def)
  have e1: "2 powi e = 2 ^ 52 * q"
    using power_int_add[of "2::real" 52 "e - 52"] by (simp add: q_def)
  have e2: "2 powi (e + 1) = 2 ^ 53 * q"
    using power_int_add[of "2::real" 53 "e - 52"] by (simp add: q_def add.commute)
  from exponent_bounds[OF assms] have "2 ^ 52 * q \<le> x" "x < 2 ^ 53 * q"
    by (simp_all add: e1 e2 flip: e_def)
  with q have lo: "of_int (2 ^ 52) \<le> x / q" and hi: "x / q \<le> of_int (2 ^ 53)"
    by (simp_all add: field_simps)
  from round_even_ge[OF lo] have "(of_int (2 ^ 52) :: real) \<le> of_int (round_even (x / q))"
    by (simp only: of_int_le_iff)
  with q have "2 ^ 52 * q \<le> of_int (round_even (x / q)) * q" by simp
  then show "2 powi exponent x \<le> rnd x" by (simp add: r e1 flip: e_def)
  from round_even_le[OF hi] have "(of_int (round_even (x / q)) :: real) \<le> of_int (2 ^ 53)"
    by (simp only: of_int_le_iff)
  with q have "of_int (round_even (x / q)) * q \<le> 2 ^ 53 * q" by simp
  then show "rnd x \<le> 2 powi (exponent x + 1)" by (simp add: r e2 flip: e_def)
qed

lemma rnd_pos: "0 < x \<Longrightarrow> 0 < rnd x"
  using rnd_pos_bounds(1)[of x] zero_less_power_int[of "2::real" "exponent x"] by linarith

lemma rnd_zero_iff: "rnd x = 0 \<longleftrightarrow> x = 0"
proof
  assume r: "rnd x = 0"
  show "x = 0"
  proof (rule ccontr)
    assume "x \<noteq> 0"
    then consider "0 < x" | "0 < - x" by linarith
    then show False
    proof cases
      case 1
      with rnd_pos[of x] r show False by simp
    next
      case 2
      with rnd_pos[of "- x"] r show False by (simp add: rnd_neg)
    qed
  qed
next
  assume "x = 0"
  then show "rnd x = 0" by (simp add: rnd_def)
qed

lemma rnd_ge_two:
  assumes "2 \<le> x"
  shows "2 \<le> rnd x"
proof -
  have x: "0 < x" using assms by simp
  have "1 \<le> exponent x"
  proof (rule ccontr)
    assume "\<not> 1 \<le> exponent x"
    then have "exponent x + 1 \<le> 1" by simp
    then have "(2::real) powi (exponent x + 1) \<le> 2 powi 1" by (rule power_int_increasing) simp
    with exponent_bounds(2)[OF x] assms show False by simp
  qed
  then have "(2::real) powi 1 \<le> 2 powi exponent x" by (rule power_int_increasing) simp
  with rnd_pos_bounds(1)[OF x] show ?thesis by simp
qed

lemma rnd_one: "rnd 1 = 1"
  by code_simp

lemma rnd_of_int_eq_one_iff: "rnd (of_int n) = 1 \<longleftrightarrow> n = 1"
proof
  assume r: "rnd (of_int n) = 1"
  show "n = 1"
  proof (rule ccontr)
    assume "n \<noteq> 1"
    then consider "2 \<le> n" | "n = 0" | "n < 0" by linarith
    then show False
    proof cases
      case 1
      then have "(2::real) \<le> of_int n" by simp
      from rnd_ge_two[OF this] r show False by simp
    next
      case 2
      with r show False by (simp add: rnd_def)
    next
      case 3
      then have "0 < rnd (- of_int n)" by (intro rnd_pos) simp
      with r show False by (simp add: rnd_neg)
    qed
  qed
next
  assume "n = 1"
  then show "rnd (of_int n) = 1" by (simp add: rnd_one)
qed

lemma rnd_below_limit:
  assumes "\<bar>x\<bar> < 2 ^ 1023"
  shows "\<bar>rnd x\<bar> < float_limit"
proof -
  have pos: "rnd y < float_limit" if "0 < y" "y < 2 ^ 1023" for y
  proof -
    have "exponent y < 1023"
    proof (rule ccontr)
      assume "\<not> exponent y < 1023"
      then have "1023 \<le> exponent y" by simp
      then have "(2::real) powi 1023 \<le> 2 powi exponent y" by (rule power_int_increasing) simp
      with exponent_bounds(1)[OF that(1)] that(2) show False by simp
    qed
    then have "exponent y + 1 \<le> 1023" by simp
    then have "(2::real) powi (exponent y + 1) \<le> 2 powi 1023" by (rule power_int_increasing) simp
    with rnd_pos_bounds(2)[OF that(1)] have "rnd y \<le> 2 ^ 1023" by simp
    also have "(2::real) ^ 1023 < 2 ^ 1024" by simp
    finally show ?thesis by (simp add: float_limit_def)
  qed
  consider "x = 0" | "0 < x" | "0 < - x" by linarith
  then show ?thesis
  proof cases
    case 1
    then show ?thesis by (simp add: rnd_def float_limit_def)
  next
    case 2
    with assms pos[of x] rnd_pos[of x] show ?thesis by simp
  next
    case 3
    with assms pos[of "- x"] rnd_pos[of "- x"] show ?thesis by (simp add: rnd_neg)
  qed
qed

section \<open>The tag cloud\<close>

lemma py_float_ok:
  assumes "\<bar>n\<bar> < 2 ^ 1023"
  shows "py_float n = Inr (rnd (of_int n))"
proof -
  from assms have "real_of_int \<bar>n\<bar> < of_int (2 ^ 1023)" by (simp only: of_int_less_iff)
  then have "\<bar>real_of_int n\<bar> < 2 ^ 1023" by simp
  from rnd_below_limit[OF this] show ?thesis by (simp add: py_float_def Let_def)
qed

lemma collect_ok: "\<forall>x\<in>set xs. f x = Inr (g x) \<Longrightarrow> collect f xs = Inr (map g xs)"
  by (induction xs) simp_all

lemma thresholds_ok:
  assumes "steps \<noteq> 0" "\<bar>steps\<bar> < 2 ^ 1023"
  shows "\<exists>ths. calculate_thresholds mn mx steps = Inr ths \<and> length ths = nat steps"
proof -
  define delta where "delta = rnd (rnd (mx - mn) / rnd (of_int steps))"
  have fs: "py_float steps = Inr (rnd (of_int steps))" using assms(2) by (rule py_float_ok)
  have nz: "rnd (of_int steps) \<noteq> 0" using assms(1) by (simp add: rnd_zero_iff)
  have "\<forall>i\<in>set [1..steps]. threshold_at mn delta i = Inr (rnd (mn + rnd (rnd (of_int i) * delta)))"
  proof
    fix i assume "i \<in> set [1..steps]"
    then have "\<bar>i\<bar> \<le> \<bar>steps\<bar>" by simp
    with assms(2) have "\<bar>i\<bar> < 2 ^ 1023" by linarith
    then show "threshold_at mn delta i = Inr (rnd (mn + rnd (rnd (of_int i) * delta)))"
      by (simp add: threshold_at_def py_float_ok)
  qed
  then have "collect (threshold_at mn delta) [1..steps]
      = Inr (map (\<lambda>i. rnd (mn + rnd (rnd (of_int i) * delta))) [1..steps])"
    by (rule collect_ok)
  with fs nz show ?thesis
    by (simp add: calculate_thresholds_def Let_def delta_def)
qed

lemma font_loop_update:
  "font_loop w ths js fs t = Inr t' \<Longrightarrow> \<exists>f. t' = t\<lparr>font_size := f\<rparr>"
proof (induction js arbitrary: fs t)
  case Nil
  then have "t' = t\<lparr>font_size := font_size t\<rparr>" by simp
  then show ?case ..
next
  case (Cons j js)
  show ?case
  proof (cases "\<not> fs \<and> j < length ths \<and> w \<le> ths ! j")
    case True
    with Cons.prems have "font_loop w ths js True (t\<lparr>font_size := Some (int j + 1)\<rparr>) = Inr t'"
      by simp
    from Cons.IH[OF this] obtain f where "t' = t\<lparr>font_size := Some (int j + 1)\<rparr>\<lparr>font_size := f\<rparr>" ..
    then have "t' = t\<lparr>font_size := f\<rparr>" by simp
    then show ?thesis ..
  next
    case False
    with Cons.prems have "font_loop w ths js fs t = Inr t'" by (auto split: if_splits)
    then show ?thesis by (rule Cons.IH)
  qed
qed

lemma font_loop_frame:
  assumes "font_loop w ths js fs t = Inr t'"
  shows "t' = t\<lparr>font_size := font_size t'\<rparr>"
proof -
  from font_loop_update[OF assms] obtain f where "t' = t\<lparr>font_size := f\<rparr>" ..
  then show ?thesis by simp
qed

lemma font_loop_ok:
  "\<forall>j\<in>set js. j < length ths \<Longrightarrow> \<exists>t'. font_loop w ths js fs t = Inr t'"
  by (induction js arbitrary: fs t) auto

lemma cloud_loop_frame:
  "cloud_loop ths mx steps d ts = Inr ts' \<Longrightarrow>
   list_all2 (\<lambda>t t'. t' = t\<lparr>font_size := font_size t'\<rparr>) ts ts'"
proof (induction ts arbitrary: ts')
  case Nil
  then show ?case by simp
next
  case (Cons t ts)
  then show ?case
    by (auto split: sum.splits dest: font_loop_frame)
qed

lemma LOGARITHMIC_neq_LINEAR: "LOGARITHMIC \<noteq> LINEAR"
  by (simp add: LOGARITHMIC_def LINEAR_def)

lemma log_weight_ok:
  assumes "0 < c" "2 \<le> mx"
  shows "\<exists>w. calculate_tag_weight c mx LOGARITHMIC = Inr w"
proof -
  have "0 < ln mx" using assms(2) by simp
  then have "rnd (ln mx) \<noteq> 0" by (simp add: rnd_zero_iff)
  with assms show ?thesis
    by (simp add: calculate_tag_weight_def math_log_def Let_def LOGARITHMIC_neq_LINEAR)
qed

lemma log_weight_fails:
  assumes "c \<le> 0" "mx \<noteq> 1"
  shows "calculate_tag_weight c mx LOGARITHMIC = Inl (ValueError ''math domain error'')"
  using assms by (simp add: calculate_tag_weight_def math_log_def LOGARITHMIC_neq_LINEAR)

lemma log_loop_fails:
  assumes "mx \<noteq> 1" "\<forall>t\<in>set ts. 0 < count t \<longrightarrow> 2 \<le> mx" "length ths = nat steps"
    and "\<exists>t\<in>set ts. count t \<le> 0"
  shows "cloud_loop ths mx steps LOGARITHMIC ts = Inl (ValueError ''math domain error'')"
  using assms(2,4)
proof (induction ts)
  case Nil
  then show ?case by simp
next
  case (Cons t ts)
  show ?case
  proof (cases "count t \<le> 0")
    case True
    with assms(1) show ?thesis by (simp add: log_weight_fails)
  next
    case False
    with Cons.prems have mx: "2 \<le> mx" and bad: "\<exists>t\<in>set ts. count t \<le> 0" by auto
    from False mx obtain w where w: "calculate_tag_weight (count t) mx LOGARITHMIC = Inr w"
      using log_weight_ok[of "count t" mx] by auto
    have "\<forall>j\<in>set [0..<nat steps]. j < length ths" using assms(3) by simp
    from font_loop_ok[OF this] obtain t' where t': "font_loop w ths [0..<nat steps] False t = Inr t'"
      by blast
    have "cloud_loop ths mx steps LOGARITHMIC ts = Inl (ValueError ''math domain error'')"
      using Cons.prems(1) bad by (intro Cons.IH) auto
    with w t' show ?thesis by simp
  qed
qed

lemma counts_in_range:
  assumes "tags \<noteq> []" "\<forall>t\<in>set tags. \<bar>count t\<bar> < 2 ^ 1023"
  shows "py_float (Min (set (map count tags))) = Inr (rnd (of_int (Min (set (map count tags)))))"
    "py_float (Max (set (map count tags))) = Inr (rnd (of_int (Max (set (map count tags)))))"
proof -
  have "Min (set (map count tags)) \<in> set (map count tags)" using assms(1) by (intro Min_in) simp_all
  with assms(2) have "\<bar>Min (set (map count tags))\<bar> < 2 ^ 1023" by auto
  then show "py_float (Min (set (map count tags))) = Inr (rnd (of_int (Min (set (map count tags)))))"
    by (rule py_float_ok)
  have "Max (set (map count tags)) \<in> set (map count tags)" using assms(1) by (intro Max_in) simp_all
  with assms(2) have "\<bar>Max (set (map count tags))\<bar> < 2 ^ 1023" by auto
  then show "py_float (Max (set (map count tags))) = Inr (rnd (of_int (Max (set (map count tags)))))"
    by (rule py_float_ok)
qed

lemma py_float_small:
  "py_float 0 = Inr 0" "py_float 1 = Inr 1" "py_float 62 = Inr 62"
  by code_simp+


lemma thresholds_0_1_4: "calculate_thresholds 0 1 4 = Inr [1 / 4, 1 / 2, 3 / 4, 1]"
  by code_simp

lemma thresholds_1_62_7:
  "calculate_thresholds 1 62 7 = Inr [5468656690378459 / 562949953421312,
      5187181713667803 / 281474976710656, 955004385268297 / 35184372088832,
      5046444225312475 / 140737488355328, 3136435454775881 / 70368744177664,
      937412199223881 / 17592186044416, 8725724278030335 / 140737488355328]"
  by code_simp

lemma upt_4: "[0..<4::nat] = [0, 1, 2, 3]"
  by code_simp

lemma upt_7: "[0..<7::nat] = [0, 1, 2, 3, 4, 5, 6]"
  by code_simp




text \<open>
  C4 (as amended): with the \<open>LOGARITHMIC\<close> distribution, \<open>calculate_cloud\<close> on a collection
  that has a tag with a count of 0 or less raises the \<open>ValueError\<close> of \<open>math.log\<close>, provided
  the largest count is not 1, \<open>steps\<close> is not 0 and the integers are in the range of a
  float.
\<close>

theorem logarithmic_nonpositive_count_raises:
  assumes "\<exists>t\<in>set tags. count t \<le> 0" "Max (set (map count tags)) \<noteq> 1"
    and "steps \<noteq> 0" "\<bar>steps\<bar> < 2 ^ 1023" "\<forall>t\<in>set tags. \<bar>count t\<bar> < 2 ^ 1023"
  shows "calculate_cloud tags steps LOGARITHMIC = Inl (ValueError ''math domain error'')"
proof -
  define M where "M = Max (set (map count tags))"
  define mn where "mn = rnd (of_int (Min (set (map count tags))))"
  define mx where "mx = rnd (of_int M)"
  from assms(1) have ne: "tags \<noteq> []" by auto
  have mx1: "mx \<noteq> 1" using assms(2) by (simp add: mx_def M_def rnd_of_int_eq_one_iff)
  from thresholds_ok[OF assms(3,4)] obtain ths where
    ths: "calculate_thresholds mn mx steps = Inr ths" and len: "length ths = nat steps" by blast
  have big: "\<forall>t\<in>set tags. 0 < count t \<longrightarrow> 2 \<le> mx"
  proof (intro ballI impI)
    fix t assume t: "t \<in> set tags" "0 < count t"
    then have "count t \<le> M" unfolding M_def by (intro Max_ge) simp_all
    with t(2) assms(2) have "2 \<le> M" unfolding M_def by linarith
    then have "(2::real) \<le> of_int M" by simp
    then show "2 \<le> mx" unfolding mx_def by (rule rnd_ge_two)
  qed
  have "cloud_loop ths mx steps LOGARITHMIC tags = Inl (ValueError ''math domain error'')"
    using mx1 big len assms(1) by (rule log_loop_fails)
  then show ?thesis
    using ne counts_in_range[OF ne assms(5)] ths unfolding mn_def mx_def M_def
    by (simp add: calculate_cloud_def Let_def)
qed

theorem logarithmic_nonpositive_count_raises_witness:
  "calculate_cloud [\<lparr>name = ''a'', count = 5, font_size = None\<rparr>,
                    \<lparr>name = ''b'', count = 0, font_size = None\<rparr>] 4 LOGARITHMIC =
     Inl (ValueError ''math domain error'')"
  using logarithmic_nonpositive_count_raises[of
      "[\<lparr>name = ''a'', count = 5, font_size = None\<rparr>, \<lparr>name = ''b'', count = 0, font_size = None\<rparr>]" 4]
  by simp

text \<open>
  C4 as stated fails: when the largest count is 1 no logarithm is taken, and a count of 0
  gets a font size.
\<close>

theorem logarithmic_zero_count_accepted:
  "calculate_cloud [\<lparr>name = ''a'', count = 0, font_size = None\<rparr>,
                    \<lparr>name = ''b'', count = 1, font_size = None\<rparr>] 4 LOGARITHMIC =
     Inr [\<lparr>name = ''a'', count = 0, font_size = Some 1\<rparr>,
          \<lparr>name = ''b'', count = 1, font_size = Some 4\<rparr>]"
  by (simp add: calculate_cloud_def py_float_small thresholds_0_1_4 calculate_tag_weight_def upt_4)

text \<open>
  C7: every tag should get a \<open>font_size\<close> between 1 and \<open>steps\<close>.  With the counts 1 and
  62, seven steps and the \<open>LINEAR\<close> distribution, the last threshold is
  \<open>1.0 + 7 * (61.0 / 7.0)\<close>, which rounds to \<open>62 - 2^-47\<close>: the tag with the count 62 is
  above every threshold and is left without a \<open>font_size\<close>.
\<close>

theorem linear_seven_steps_leaves_font_size_unset:
  "calculate_cloud [\<lparr>name = ''a'', count = 1, font_size = None\<rparr>,
                    \<lparr>name = ''b'', count = 62, font_size = None\<rparr>] 7 LINEAR =
     Inr [\<lparr>name = ''a'', count = 1, font_size = Some 1\<rparr>,
          \<lparr>name = ''b'', count = 62, font_size = None\<rparr>]"
  by (simp add: calculate_cloud_def py_float_small thresholds_1_62_7 calculate_tag_weight_def upt_7)

theorem linear_seven_steps_witness:
  "\<exists>ts. calculate_cloud [\<lparr>name = ''a'', count = 1, font_size = None\<rparr>,
                    \<lparr>name = ''b'', count = 62, font_size = None\<rparr>] 7 LINEAR = Inr ts \<and>
        font_size (ts ! 1) = None"
  using linear_seven_steps_leaves_font_size_unset by simp

text \<open>
  C10: when \<open>calculate_cloud\<close> returns, the list returned has the tags given, in their
  order, each changed at most in its \<open>font_size\<close>, so the counts are the ones given; the
  empty collection is returned as it is.
\<close>

theorem calculate_cloud_frame:
  "(calculate_cloud tags steps distribution = Inr tags' \<longrightarrow>
      length tags' = length tags \<and> map count tags' = map count tags \<and>
      list_all2 (\<lambda>t t'. t' = t\<lparr>font_size := font_size t'\<rparr>) tags tags') \<and>
   calculate_cloud [] steps distribution = Inr []"
proof -
  have e: "calculate_cloud [] steps distribution = Inr []" by (simp add: calculate_cloud_def)
  have "list_all2 (\<lambda>t t'. t' = t\<lparr>font_size := font_size t'\<rparr>) tags tags'"
    if "calculate_cloud tags steps distribution = Inr tags'"
  proof (cases "tags = []")
    case True
    with that show ?thesis by (simp add: calculate_cloud_def)
  next
    case False
    with that obtain ths mx where "cloud_loop ths mx steps distribution tags = Inr tags'"
      by (auto simp: calculate_cloud_def Let_def split: sum.splits)
    then show ?thesis by (rule cloud_loop_frame)
  qed
  moreover have "length b = length a \<and> map count b = map count a"
    if "list_all2 (\<lambda>t t'. t' = t\<lparr>font_size := font_size t'\<rparr>) a b" for a b :: "tag list"
    using that
  proof (induction rule: list_all2_induct)
    case Nil
    then show ?case by simp
  next
    case (Cons x xs y ys)
    from Cons(1) have "count y = count x" by (metis tag.select_convs(2) tag.surjective tag.update_convs(3))
    with Cons show ?case by simp
  qed
  ultimately show ?thesis using e by blast
qed

theorem calculate_cloud_frame_witness:
  "calculate_cloud [\<lparr>name = ''a'', count = 0, font_size = Some 9\<rparr>,
                    \<lparr>name = ''b'', count = 1, font_size = None\<rparr>] 4 LINEAR =
     Inr [\<lparr>name = ''a'', count = 0, font_size = Some 1\<rparr>,
          \<lparr>name = ''b'', count = 1, font_size = Some 4\<rparr>] \<and>
   map count [\<lparr>name = ''a'', count = 0, font_size = Some 1\<rparr>,
          \<lparr>name = ''b'', count = 1, font_size = Some 4\<rparr>] = [0, 1]"
proof -
  have h: "calculate_cloud [\<lparr>name = ''a'', count = 0, font_size = Some 9\<rparr>,
                    \<lparr>name = ''b'', count = 1, font_size = None\<rparr>] 4 LINEAR =
     Inr [\<lparr>name = ''a'', count = 0, font_size = Some 1\<rparr>,
          \<lparr>name = ''b'', count = 1, font_size = Some 4\<rparr>]"
    by (simp add: calculate_cloud_def py_float_small thresholds_0_1_4 calculate_tag_weight_def upt_4)
  show ?thesis
    using h calculate_cloud_frame[of
      "[\<lparr>name = ''a'', count = 0, font_size = Some 9\<rparr>, \<lparr>name = ''b'', count = 1, font_size = None\<rparr>]"
      4 LINEAR
      "[\<lparr>name = ''a'', count = 0, font_size = Some 1\<rparr>, \<lparr>name = ''b'', count = 1, font_size = Some 4\<rparr>]"]
    by simp
qed

end
